theory Spec2Isabelle
  imports Main
begin

section \<open>Data model\<close>

text \<open>
  The program (\<^verbatim>\<open>src/index.mjs\<close>) works on parsed JSON. The types below are the shapes
  the source reads. A property that the source reads without testing for it first is a
  field of the type; a property that the source tests before use (\<^verbatim>\<open>if (embeds && ...)\<close>,
  \<^verbatim>\<open>if (facets)\<close>, \<^verbatim>\<open>Array.isArray(replyArray)\<close>) is optional in the type. A value that
  lacks a field of the first kind (reading it would throw) is outside the model; so every
  element of a \<^verbatim>\<open>replies\<close> array is a node with a \<^verbatim>\<open>post\<close>. Strings are \<^typ>\<open>string\<close>; the JSON
  numbers \<^verbatim>\<open>byteStart\<close> and \<^verbatim>\<open>byteEnd\<close> are integers.
\<close>

text \<open>One entry of \<^verbatim>\<open>embeds.images\<close>: \<^verbatim>\<open>image.image.mimeType\<close> and
  \<^verbatim>\<open>image.image.ref["$link"]\<close>.\<close>

datatype image = Image (mimeType: string) (ref_link: string)

text \<open>An embed object. \<open>embed_type\<close> is the value under the key \<^verbatim>\<open>"$type"\<close>, \<open>None\<close> when
  the object has no such key; \<open>images\<close> is \<^verbatim>\<open>embeds.images\<close>, read only for an image
  gallery.\<close>

datatype embed = Embed (embed_type: "string option") (images: "image list")

text \<open>A richtext feature: its \<^verbatim>\<open>"$type"\<close> tag and its \<^verbatim>\<open>uri\<close> (read only for link
  features).\<close>

datatype feature = Feature (feature_type: string) (feature_uri: string)

text \<open>A facet: \<^verbatim>\<open>facet.index.byteStart\<close>, \<^verbatim>\<open>facet.index.byteEnd\<close> and
  \<^verbatim>\<open>facet.features\<close>.\<close>

datatype facet = Facet (byteStart: int) (byteEnd: int) (facet_features: "feature list")

text \<open>The object \<^verbatim>\<open>{uri, start, end}\<close> pushed by \<^verbatim>\<open>extractFacets\<close>.\<close>

datatype facetLink = FacetLink (link_uri: string) (link_start: int) (link_end: int)

text \<open>The upstream author object. Only \<^verbatim>\<open>did\<close> is read; the rest of the profile is passed
  through as it is.\<close>

datatype author = Author (author_did: string) (author_profile: "(string \<times> string) list")

text \<open>\<^verbatim>\<open>node.post\<close>: \<^verbatim>\<open>uri\<close>, \<^verbatim>\<open>cid\<close>, \<^verbatim>\<open>author\<close>, \<^verbatim>\<open>record.text\<close>, \<^verbatim>\<open>record.embed\<close>,
  \<^verbatim>\<open>record.facets\<close>, \<^verbatim>\<open>record.reply.root.cid\<close> and \<^verbatim>\<open>record.reply.parent.cid\<close>. The
  last two are read for reply nodes only, never for the root of the thread. The
  identifiers are strings, so the comparisons \<^verbatim>\<open>===\<close> and \<^verbatim>\<open>==\<close> of the source are both
  equality of strings.\<close>

datatype post = Post (post_uri: string) (post_cid: string) (post_author: author)
  (record_text: string) (record_embed: "embed option") (record_facets: "facet list option")
  (reply_root_cid: string) (reply_parent_cid: string)

text \<open>A JSON value that is present, not null and not an array. Of an object only the
  outcome of \<^verbatim>\<open>.length > 0\<close> is kept.\<close>

datatype junk = JBool bool | JNum int | JStr string | JObject bool

text \<open>The value of a property that is expected to hold an array: missing, null, some
  other value, or an array.\<close>

datatype 'a jsfield = Undefined | Null | NotArray junk | Array "'a list"

text \<open>A node of the reply tree: \<^verbatim>\<open>node.post\<close> and \<^verbatim>\<open>node.replies\<close>.\<close>

datatype rawpost = RawPost (node_post: post) (node_replies: "rawpost jsfield")

text \<open>The object \<^verbatim>\<open>{uri, text, embed, facets}\<close> pushed for a post.\<close>

datatype normalizedPost = NormalizedPost (np_uri: string) (np_text: string)
  (np_embed: "string list") (np_facets: "facetLink list")

text \<open>What \<^verbatim>\<open>fetchThread\<close> returns and caches: \<^verbatim>\<open>{message}\<close> or
  \<^verbatim>\<open>{message, author, thread}\<close>.\<close>

datatype out = Out (out_message: string) (out_author: "author option")
  (out_thread: "normalizedPost list option")

text \<open>Of a parsed page only the outcome of \<^verbatim>\<open>querySelector("p#bsky_did")\<close> matters: the
  \<^verbatim>\<open>innerText\<close> of the element found, \<open>None\<close> when there is none.\<close>

datatype htmlDocument = HTMLDocument (bsky_did: "string option")

text \<open>Of the parsed JSON of the feed service only \<^verbatim>\<open>thread.thread\<close> matters: \<open>None\<close> when
  the value has no such node (reading \<^verbatim>\<open>thread.thread.post\<close> then throws).\<close>

datatype json = JSON (json_thread: "rawpost option")

text \<open>An exception that leaves \<^verbatim>\<open>fetchThread\<close>.\<close>

datatype fault = TypeError | NetworkError

text \<open>The outside world as the program sees it: the body text behind a URL (\<open>None\<close> when
  \<^verbatim>\<open>fetch\<close> or \<^verbatim>\<open>res.text()\<close> throws), the HTML parser (\<open>None\<close> when it throws) and
  \<^verbatim>\<open>JSON.parse\<close> (\<open>None\<close> when it throws).\<close>

record env =
  fetch_text :: "string \<Rightarrow> string option"
  parseFromString :: "string \<Rightarrow> htmlDocument option"
  JSON_parse :: "string \<Rightarrow> json option"

text \<open>The state the program changes: the key-value store \<^verbatim>\<open>kv\<close>, an opaque map from the
  URL to the stored value, and the list of the URLs fetched so far, oldest first.\<close>

record world =
  kv :: "string \<rightharpoonup> out"
  fetched :: "string list"


section \<open>String helpers of the JavaScript library\<close>

text \<open>\<^verbatim>\<open>s.split(sep)\<close> for a one-character separator: the segments between the
  separators, never an empty array (\<^verbatim>\<open>"".split("/")\<close> is \<^verbatim>\<open>[""]\<close>).\<close>

fun js_split :: "char \<Rightarrow> string \<Rightarrow> string list" where
  "js_split sep [] = [[]]"
| "js_split sep (c # cs) =
     (if c = sep then [] # js_split sep cs
      else (case js_split sep cs of
              [] \<Rightarrow> [[c]]
            | seg # segs \<Rightarrow> (c # seg) # segs))"

text \<open>\<^verbatim>\<open>arr.pop()\<close> as an expression: the last element (the array is never empty
  where the source calls it, see \<open>js_split_not_Nil\<close>).\<close>

definition pop :: "string list \<Rightarrow> string" where
  "pop arr = last arr"

text \<open>\<^verbatim>\<open>s.trim()\<close>, for the ASCII white space (space, tab, line feed, vertical tab, form
  feed, carriage return).\<close>

definition is_space :: "char \<Rightarrow> bool" where
  "is_space c = (c \<in> {CHR 0x20, CHR 0x09, CHR 0x0A, CHR 0x0B, CHR 0x0C, CHR 0x0D})"

definition trim :: "string \<Rightarrow> string" where
  "trim s = rev (dropWhile is_space (rev (dropWhile is_space s)))"

text \<open>A value of type \<^verbatim>\<open>string | null\<close> inside a template literal: \<^verbatim>\<open>null\<close> prints as
  \<^verbatim>\<open>"null"\<close>.\<close>

definition interpolate :: "string option \<Rightarrow> string" where
  "interpolate v = (case v of None \<Rightarrow> ''null'' | Some s \<Rightarrow> s)"

section \<open>Content normalizer\<close>

text \<open>The loop of \<^verbatim>\<open>extractEmbeds\<close> (lines 82 to 86): one \<^verbatim>\<open>imgs.push\<close> per image.\<close>

fun pushImages :: "string \<Rightarrow> image list \<Rightarrow> string list \<Rightarrow> string list" where
  "pushImages didPlc [] imgs = imgs"
| "pushImages didPlc (img # rest) imgs =
     (let mime = pop (js_split CHR ''/'' (mimeType img));
          link = ref_link img
      in pushImages didPlc rest
           (imgs @ [''https://cdn.bsky.app/img/feed_thumbnail/plain/'' @ didPlc @ ''/'' @ link
                     @ ''@'' @ mime]))"

text \<open>\<^verbatim>\<open>extractEmbeds(embeds, didPlc)\<close>, lines 78 to 91. \<open>None\<close> is an absent (or null)
  embed.\<close>

definition extractEmbeds :: "embed option \<Rightarrow> string \<Rightarrow> string list" where
  "extractEmbeds embeds didPlc =
     (case embeds of
        None \<Rightarrow> []
      | Some e \<Rightarrow>
          (case embed_type e of
             None \<Rightarrow> []
           | Some t \<Rightarrow>
               if t = ''app.bsky.embed.images'' then pushImages didPlc (images e) []
               else []))"

text \<open>The inner loop of \<^verbatim>\<open>extractFacets\<close> (lines 104 to 110).\<close>

fun pushFeatures :: "facet \<Rightarrow> feature list \<Rightarrow> facetLink list \<Rightarrow> facetLink list" where
  "pushFeatures facet [] fcts = fcts"
| "pushFeatures facet (feature # rest) fcts =
     pushFeatures facet rest
       (fcts @ [FacetLink (feature_uri feature) (byteStart facet) (byteEnd facet)])"

text \<open>The outer loop of \<^verbatim>\<open>extractFacets\<close> (lines 101 to 112).\<close>

fun forFacets :: "facet list \<Rightarrow> facetLink list \<Rightarrow> facetLink list" where
  "forFacets [] fcts = fcts"
| "forFacets (facet # rest) fcts =
     (let features =
            filter (\<lambda>d. feature_type d = ''app.bsky.richtext.facet#link'') (facet_features facet)
      in forFacets rest
           (if length features > 0 then pushFeatures facet features fcts else fcts))"

text \<open>\<^verbatim>\<open>extractFacets(facets)\<close>, lines 98 to 115. \<open>None\<close> is an absent facet list.\<close>

definition extractFacets :: "facet list option \<Rightarrow> facetLink list" where
  "extractFacets facets = (case facets of None \<Rightarrow> [] | Some fs \<Rightarrow> forFacets fs [])"

section \<open>Thread reconstructor\<close>

text \<open>The test \<^verbatim>\<open>reply.replies && reply.replies.length > 0\<close> of line 142.\<close>

fun has_replies :: "'a jsfield \<Rightarrow> bool" where
  "has_replies Undefined = False"
| "has_replies Null = False"
| "has_replies (NotArray (JBool b)) = False"
| "has_replies (NotArray (JNum n)) = False"
| "has_replies (NotArray (JStr s)) = (length s > 0)"
| "has_replies (NotArray (JObject b)) = b"
| "has_replies (Array xs) = (length xs > 0)"

text \<open>\<^verbatim>\<open>traverseReplies(replyArray, pcid)\<close>, lines 127 to 149. The closure reads
  \<^verbatim>\<open>authorDid\<close> and \<^verbatim>\<open>cid\<close> and pushes onto \<^verbatim>\<open>replies\<close>: they are arguments here, and the
  new value of \<^verbatim>\<open>replies\<close> is returned. \<open>forReplies\<close> is the loop of lines 131 to 148.\<close>

function traverseReplies ::
    "string \<Rightarrow> string \<Rightarrow> rawpost jsfield \<Rightarrow> string \<Rightarrow> normalizedPost list
      \<Rightarrow> normalizedPost list"
  and forReplies ::
    "string \<Rightarrow> string \<Rightarrow> rawpost list \<Rightarrow> string \<Rightarrow> normalizedPost list
      \<Rightarrow> normalizedPost list"
where
  "traverseReplies authorDid cid Undefined pcid replies = replies"
| "traverseReplies authorDid cid Null pcid replies = replies"
| "traverseReplies authorDid cid (NotArray v) pcid replies = replies"
| "traverseReplies authorDid cid (Array replyArray) pcid replies =
     forReplies authorDid cid replyArray pcid replies"
| "forReplies authorDid cid [] pcid replies = replies"
| "forReplies authorDid cid (RawPost p rs # rest) pcid replies =
     forReplies authorDid cid rest pcid
       (if author_did (post_author p) = authorDid then
          if reply_root_cid p = cid then
            if reply_parent_cid p = pcid then
              (let pushed = replies @
                     [NormalizedPost (post_uri p) (record_text p)
                        (extractEmbeds (record_embed p) authorDid)
                        (extractFacets (record_facets p))]
               in if has_replies rs
                  then traverseReplies authorDid cid rs (post_cid p) pushed
                  else pushed)
            else replies
          else replies
        else replies)"
  by pat_completeness auto
termination
  by (relation "measure (\<lambda>x. case x of
         Inl (authorDid, cid, replyArray, pcid, replies) \<Rightarrow> size_jsfield size replyArray
       | Inr (authorDid, cid, replyArray, pcid, replies) \<Rightarrow> size_list size replyArray)")
     auto

text \<open>\<^verbatim>\<open>extractReplies(thread, authorDid)\<close>, lines 123 to 153.\<close>

definition extractReplies :: "rawpost \<Rightarrow> string \<Rightarrow> normalizedPost list" where
  "extractReplies thread authorDid =
     (let replies = [];
          cid = post_cid (node_post thread)
      in traverseReplies authorDid cid (node_replies thread) (post_cid (node_post thread))
           replies)"

section \<open>Identity resolver and feed fetcher\<close>

text \<open>\<^verbatim>\<open>fetchHTML(url)\<close>, lines 22 to 31: any exception gives \<^verbatim>\<open>null\<close>. The fetch is
  recorded.\<close>

definition fetchHTML :: "env \<Rightarrow> string \<Rightarrow> world \<Rightarrow> htmlDocument option \<times> world" where
  "fetchHTML e url w =
     (case fetch_text e url of
        None \<Rightarrow> None
      | Some html \<Rightarrow> parseFromString e html,
      w\<lparr>fetched := fetched w @ [url]\<rparr>)"

text \<open>\<^verbatim>\<open>safeJSONParse(str)\<close>, lines 38 to 45: \<open>None\<close> is \<^verbatim>\<open>undefined\<close>.\<close>

definition safeJSONParse :: "env \<Rightarrow> string \<Rightarrow> json option" where
  "safeJSONParse e str = JSON_parse e str"

text \<open>\<^verbatim>\<open>fetchJSON(url)\<close>, lines 52 to 56: an exception of the fetch is not caught.\<close>

definition fetchJSON :: "env \<Rightarrow> string \<Rightarrow> world \<Rightarrow> (fault + json option) \<times> world" where
  "fetchJSON e url w =
     (case fetch_text e url of
        None \<Rightarrow> Inl NetworkError
      | Some txt \<Rightarrow> Inr (safeJSONParse e txt),
      w\<lparr>fetched := fetched w @ [url]\<rparr>)"

text \<open>\<^verbatim>\<open>didFromPost(postDoc)\<close>, lines 63 to 70.\<close>

definition didFromPost :: "htmlDocument option \<Rightarrow> string option" where
  "didFromPost postDoc =
     (case postDoc of
        None \<Rightarrow> None
      | Some doc \<Rightarrow>
          (case bsky_did doc of
             None \<Rightarrow> None
           | Some innerText \<Rightarrow> Some (trim innerText)))"

section \<open>Thread cache and pipeline\<close>

text \<open>The array built at lines 185 to 192: the root post, then
  \<^verbatim>\<open>extractReplies(thread.thread, thread.thread.post.author.did)\<close>.\<close>

definition threadReplies :: "rawpost \<Rightarrow> normalizedPost list" where
  "threadReplies t =
     [NormalizedPost (post_uri (node_post t)) (record_text (node_post t))
        (extractEmbeds (record_embed (node_post t)) (author_did (post_author (node_post t))))
        (extractFacets (record_facets (node_post t)))]
     @ extractReplies t (author_did (post_author (node_post t)))"

text \<open>\<^verbatim>\<open>fetchThread(postURL)\<close>, lines 160 to 204. \<open>Inl\<close> is an exception that leaves the
  function, with the state reached when it was thrown.\<close>

definition fetchThread :: "env \<Rightarrow> string \<Rightarrow> world \<Rightarrow> (fault + out) \<times> world" where
  "fetchThread e postURL w =
     (case kv w postURL of
        Some entry_value \<Rightarrow> (Inr entry_value, w)
      | None \<Rightarrow>
          (case fetchHTML e postURL w of
             (None, w1) \<Rightarrow> (Inr (Out ''Error: Invalid URL'' None None), w1)
           | (Some postDoc, w1) \<Rightarrow>
               (let did = didFromPost (Some postDoc);
                    postThreadTop = pop (js_split CHR ''/'' postURL);
                    threadURL =
                      ''https://public.api.bsky.app/xrpc/app.bsky.feed.getPostThread?uri=at://''
                      @ interpolate did @ ''/app.bsky.feed.post/'' @ postThreadTop
                in case fetchJSON e threadURL w1 of
                     (Inl f, w2) \<Rightarrow> (Inl f, w2)
                   | (Inr None, w2) \<Rightarrow> (Inl TypeError, w2)
                   | (Inr (Some thread), w2) \<Rightarrow>
                       (case json_thread thread of
                          None \<Rightarrow> (Inl TypeError, w2)
                        | Some t \<Rightarrow>
                            (let replies = threadReplies t;
                                 out = Out ''success'' (Some (post_author (node_post t)))
                                         (Some replies)
                             in (Inr out, w2\<lparr>kv := (kv w2)(postURL \<mapsto> out)\<rparr>))))))"

text \<open>The route handler, lines 206 to 224: the status is 400 unless the message is
  \<^verbatim>\<open>"success"\<close>; an exception of \<^verbatim>\<open>fetchThread\<close> is not caught.\<close>

definition handler :: "env \<Rightarrow> string \<Rightarrow> world \<Rightarrow> (fault + nat \<times> out) \<times> world" where
  "handler e postURL w =
     (case fetchThread e postURL w of
        (Inl f, w') \<Rightarrow> (Inl f, w')
      | (Inr out, w') \<Rightarrow>
          (Inr (if out_message out \<noteq> ''success'' then 400 else 200, out), w'))"

section \<open>Notions used to state the properties\<close>

text \<open>The part of \<open>s\<close> after its last separator, the whole of \<open>s\<close> when it has none: the
  last segment of \<open>s\<close>.\<close>

definition last_segment :: "char \<Rightarrow> string \<Rightarrow> string" where
  "last_segment sep s = rev (takeWhile (\<lambda>c. c \<noteq> sep) (rev s))"

subsection \<open>The walk, described by the nodes it accepts\<close>

text \<open>The object pushed for a node \<open>n\<close> (lines 136 to 141, and 185 to 190 for the root):
  \<^verbatim>\<open>{uri, text, embed, facets}\<close>, the embeds resolved with \<open>authorDid\<close>.\<close>

definition normalized :: "string \<Rightarrow> rawpost \<Rightarrow> normalizedPost" where
  "normalized authorDid n =
     NormalizedPost (post_uri (node_post n)) (record_text (node_post n))
       (extractEmbeds (record_embed (node_post n)) authorDid)
       (extractFacets (record_facets (node_post n)))"

text \<open>The three nested tests of lines 133 to 135 on the post \<open>p\<close> of a reply.\<close>

definition accepts :: "string \<Rightarrow> string \<Rightarrow> string \<Rightarrow> post \<Rightarrow> bool" where
  "accepts authorDid cid pcid p =
     (author_did (post_author p) = authorDid \<and> reply_root_cid p = cid
      \<and> reply_parent_cid p = pcid)"

text \<open>The raw nodes for which \<^verbatim>\<open>traverseReplies(replyArray, pcid)\<close> pushes a post, in the
  order of the pushes: an accepted reply, then what the walk accepts among the replies of
  that reply with its \<^verbatim>\<open>cid\<close> as the expected parent, then the rest of the array. That the
  program pushes exactly the normalized posts of these nodes is proved below
  (\<open>traverseReplies_accepted\<close>).\<close>

function acceptedIn :: "string \<Rightarrow> string \<Rightarrow> rawpost jsfield \<Rightarrow> string \<Rightarrow> rawpost list"
  and acceptedOf :: "string \<Rightarrow> string \<Rightarrow> rawpost list \<Rightarrow> string \<Rightarrow> rawpost list"
where
  "acceptedIn authorDid cid Undefined pcid = []"
| "acceptedIn authorDid cid Null pcid = []"
| "acceptedIn authorDid cid (NotArray v) pcid = []"
| "acceptedIn authorDid cid (Array replyArray) pcid = acceptedOf authorDid cid replyArray pcid"
| "acceptedOf authorDid cid [] pcid = []"
| "acceptedOf authorDid cid (RawPost p rs # rest) pcid =
     (if accepts authorDid cid pcid p
      then RawPost p rs # acceptedIn authorDid cid rs (post_cid p)
      else [])
     @ acceptedOf authorDid cid rest pcid"
  by pat_completeness auto
termination
  by (relation "measure (\<lambda>x. case x of
         Inl (authorDid, cid, replyArray, pcid) \<Rightarrow> size_jsfield size replyArray
       | Inr (authorDid, cid, replyArray, pcid) \<Rightarrow> size_list size replyArray)")
     auto

text \<open>The raw nodes behind the array of lines 185 to 192: the root, then the nodes accepted
  by \<^verbatim>\<open>extractReplies(thread.thread, thread.thread.post.author.did)\<close>.\<close>

definition chain :: "rawpost \<Rightarrow> rawpost list" where
  "chain t =
     t # acceptedIn (author_did (post_author (node_post t))) (post_cid (node_post t))
           (node_replies t) (post_cid (node_post t))"

subsection \<open>Positions in the reply tree\<close>

text \<open>The node at a position of the tree: a position is the list of the indices to follow
  through the \<^verbatim>\<open>replies\<close> arrays, from the root; \<open>[]\<close> is the root itself.\<close>

fun subnode :: "rawpost \<Rightarrow> nat list \<Rightarrow> rawpost option" where
  "subnode t [] = Some t"
| "subnode (RawPost p (Array xs)) (i # path) =
     (if i < length xs then subnode (xs ! i) path else None)"
| "subnode (RawPost p Undefined) (i # path) = None"
| "subnode (RawPost p Null) (i # path) = None"
| "subnode (RawPost p (NotArray v)) (i # path) = None"

text \<open>The positions of the accepted nodes, in the order of the pushes, relative to the node
  that holds the array; \<open>i\<close> is the index of the first element of the part of the array
  still to visit.\<close>

function pathsIn :: "string \<Rightarrow> string \<Rightarrow> rawpost jsfield \<Rightarrow> string \<Rightarrow> nat list list"
  and pathsOf :: "string \<Rightarrow> string \<Rightarrow> rawpost list \<Rightarrow> string \<Rightarrow> nat \<Rightarrow> nat list list"
where
  "pathsIn authorDid cid Undefined pcid = []"
| "pathsIn authorDid cid Null pcid = []"
| "pathsIn authorDid cid (NotArray v) pcid = []"
| "pathsIn authorDid cid (Array replyArray) pcid = pathsOf authorDid cid replyArray pcid 0"
| "pathsOf authorDid cid [] pcid i = []"
| "pathsOf authorDid cid (RawPost p rs # rest) pcid i =
     (if accepts authorDid cid pcid p
      then [i] # map ((#) i) (pathsIn authorDid cid rs (post_cid p))
      else [])
     @ pathsOf authorDid cid rest pcid (Suc i)"
  by pat_completeness auto
termination
  by (relation "measure (\<lambda>x. case x of
         Inl (authorDid, cid, replyArray, pcid) \<Rightarrow> size_jsfield size replyArray
       | Inr (authorDid, cid, replyArray, pcid, i) \<Rightarrow> size_list size replyArray)")
     auto

text \<open>The positions, in the tree \<open>t\<close>, of the nodes accepted by
  \<^verbatim>\<open>extractReplies(t, authorDid)\<close>.\<close>

definition acceptedPaths :: "rawpost \<Rightarrow> string \<Rightarrow> nat list list" where
  "acceptedPaths t authorDid =
     pathsIn authorDid (post_cid (node_post t)) (node_replies t) (post_cid (node_post t))"

subsection \<open>How the accepted nodes name their parents\<close>

text \<open>Every node of the list names as its parent either \<open>pcid\<close> or the \<^verbatim>\<open>cid\<close> of a node
  earlier in the list.\<close>

definition chained :: "string \<Rightarrow> rawpost list \<Rightarrow> bool" where
  "chained pcid ns =
     (\<forall>k < length ns.
        reply_parent_cid (node_post (ns ! k)) = pcid
        \<or> (\<exists>j < k. reply_parent_cid (node_post (ns ! k)) = post_cid (node_post (ns ! j))))"

text \<open>The first node of the list names \<open>pcid\<close> as its parent, and every other node the
  \<^verbatim>\<open>cid\<close> of the node just before it.\<close>

definition linked :: "string \<Rightarrow> rawpost list \<Rightarrow> bool" where
  "linked pcid ns =
     (\<forall>k < length ns.
        reply_parent_cid (node_post (ns ! k))
          = (if k = 0 then pcid else post_cid (node_post (ns ! (k - 1)))))"

subsection \<open>Requests served one after another\<close>

text \<open>The state after a list of calls of \<^verbatim>\<open>fetchThread\<close>, each with the answers the
  outside world gives at that time.\<close>

fun serveAll :: "(env \<times> string) list \<Rightarrow> world \<Rightarrow> world" where
  "serveAll [] w = w"
| "serveAll ((e, postURL) # rest) w = serveAll rest (snd (fetchThread e postURL w))"

subsection \<open>Example inputs\<close>

text \<open>A post with the \<^verbatim>\<open>cid\<close> \<open>c\<close> by the author \<open>d\<close>, without embed and facets, whose record
  names the \<^verbatim>\<open>cid\<close>s \<open>root\<close> and \<open>parent\<close>.\<close>

definition ex_post :: "string \<Rightarrow> string \<Rightarrow> string \<Rightarrow> string \<Rightarrow> post" where
  "ex_post c d root parent =
     Post (''at://'' @ d @ ''/app.bsky.feed.post/'' @ c) c (Author d []) (''post '' @ c)
       None None root parent"

text \<open>A reply of the root's author \<^verbatim>\<open>did:plc:a\<close> to the post \<^verbatim>\<open>cx\<close> of another author.\<close>

definition ex_Y :: rawpost where
  "ex_Y = RawPost (ex_post ''cy'' ''did:plc:a'' ''c0'' ''cx'') (Array [])"

text \<open>A reply of another author, \<^verbatim>\<open>did:plc:b\<close>, to the root; \<open>ex_Y\<close> is its only reply.\<close>

definition ex_X :: rawpost where
  "ex_X = RawPost (ex_post ''cx'' ''did:plc:b'' ''c0'' ''c0'') (Array [ex_Y])"

text \<open>A reply of the root's author to \<open>ex_P1\<close>.\<close>

definition ex_Q :: rawpost where
  "ex_Q = RawPost (ex_post ''c2'' ''did:plc:a'' ''c0'' ''c1'') Undefined"

text \<open>A reply of the root's author to the root, with the reply \<open>ex_Q\<close>.\<close>

definition ex_P1 :: rawpost where
  "ex_P1 = RawPost (ex_post ''c1'' ''did:plc:a'' ''c0'' ''c0'') (Array [ex_Q])"

text \<open>A second reply of the root's author to the root.\<close>

definition ex_P2 :: rawpost where
  "ex_P2 = RawPost (ex_post ''c3'' ''did:plc:a'' ''c0'' ''c0'') (Array [])"

text \<open>The example thread: the root \<^verbatim>\<open>c0\<close> with the replies \<open>ex_X\<close>, \<open>ex_P1\<close> and \<open>ex_P2\<close>.\<close>

definition ex_R :: rawpost where
  "ex_R = RawPost (ex_post ''c0'' ''did:plc:a'' [] []) (Array [ex_X, ex_P1, ex_P2])"

text \<open>The same thread without the second reply of the author to the root.\<close>

definition ex_line :: rawpost where
  "ex_line = RawPost (ex_post ''c0'' ''did:plc:a'' [] []) (Array [ex_X, ex_P1])"

text \<open>The URL of a post.\<close>

definition ex_url :: string where
  "ex_url = ''https://bsky.app/profile/a.test/post/3kabc''"

text \<open>A world in which every fetch fails.\<close>

definition ex_down :: env where
  "ex_down = \<lparr>fetch_text = (\<lambda>url. None), parseFromString = (\<lambda>html. None),
               JSON_parse = (\<lambda>str. None)\<rparr>"

text \<open>A world in which the page of the post names the author \<^verbatim>\<open>did:plc:a\<close> and the feed
  service answers with the example thread.\<close>

definition ex_up :: env where
  "ex_up = \<lparr>fetch_text = (\<lambda>url. Some url),
             parseFromString = (\<lambda>html. Some (HTMLDocument (Some '' did:plc:a ''))),
             JSON_parse = (\<lambda>str. Some (JSON (Some ex_R)))\<rparr>"

text \<open>A world in which the page is fetched and parsed but has no element
  \<^verbatim>\<open>p#bsky_did\<close>, and the answer of the feed service has no \<^verbatim>\<open>thread\<close>.\<close>

definition ex_nodid :: env where
  "ex_nodid = \<lparr>fetch_text = (\<lambda>url. Some url),
                parseFromString = (\<lambda>html. Some (HTMLDocument None)),
                JSON_parse = (\<lambda>str. Some (JSON None))\<rparr>"

text \<open>The state before the first request: an empty store, nothing fetched.\<close>

definition ex_world :: world where
  "ex_world = \<lparr>kv = Map.empty, fetched = []\<rparr>"

text \<open>The result for the example thread.\<close>

definition ex_out :: out where
  "ex_out = Out ''success'' (Some (Author ''did:plc:a'' [])) (Some (threadReplies ex_R))"

text \<open>The state after the first request for \<open>ex_url\<close> in the world \<open>ex_up\<close>.\<close>

definition ex_cached :: world where
  "ex_cached =
     \<lparr>kv = [ex_url \<mapsto> ex_out],
      fetched = [ex_url,
        ''https://public.api.bsky.app/xrpc/app.bsky.feed.getPostThread?uri=at://did:plc:a/app.bsky.feed.post/3kabc'']\<rparr>"

section \<open>Properties of the string helpers\<close>

lemma js_split_not_Nil: "js_split sep s \<noteq> []"
  by (induction s) (auto split: list.splits)

lemma js_split_no_sep: "sep \<notin> set s \<Longrightarrow> js_split sep s = [s]"
  by (induction s) auto

lemma js_split_tl_not_Nil: "sep \<in> set s \<Longrightarrow> tl (js_split sep s) \<noteq> []"
  by (induction s) (auto simp: js_split_not_Nil split: list.splits)

lemma pop_js_split: "pop (js_split sep s) = last_segment sep s"
proof (induction s)
  case Nil
  show ?case by (simp add: pop_def last_segment_def)
next
  case (Cons c cs)
  show ?case
  proof (cases "c = sep")
    case True
    then show ?thesis
      using Cons js_split_not_Nil [of sep cs]
      by (simp add: pop_def last_segment_def takeWhile_append)
  next
    case False
    show ?thesis
    proof (cases "sep \<in> set cs")
      case True
      then have "tl (js_split sep cs) \<noteq> []"
        by (rule js_split_tl_not_Nil)
      then obtain seg seg' segs where segs: "js_split sep cs = seg # seg' # segs"
        by (cases "js_split sep cs"; cases "tl (js_split sep cs)") auto
      then have "pop (js_split sep (c # cs)) = pop (js_split sep cs)"
        using False by (simp add: pop_def)
      moreover have "takeWhile (\<lambda>c. c \<noteq> sep) (rev cs @ [c])
                       = takeWhile (\<lambda>c. c \<noteq> sep) (rev cs)"
        using True by (auto simp: takeWhile_append)
      ultimately show ?thesis
        using Cons by (simp add: last_segment_def)
    next
      case no: False
      then show ?thesis
        using False
        by (simp add: pop_def last_segment_def js_split_no_sep takeWhile_append)
    qed
  qed
qed

section \<open>Properties of the content normalizer\<close>

text \<open>Each loop appends to what it was given, in the order of its input.\<close>

lemma pushImages_eq:
  "pushImages didPlc xs imgs =
     imgs @ map (\<lambda>im. ''https://cdn.bsky.app/img/feed_thumbnail/plain/'' @ didPlc @ ''/''
                     @ ref_link im @ ''@'' @ last_segment CHR ''/'' (mimeType im)) xs"
  by (induction xs arbitrary: imgs) (simp_all add: pop_js_split)

lemma pushFeatures_eq:
  "pushFeatures facet fs fcts =
     fcts @ map (\<lambda>f. FacetLink (feature_uri f) (byteStart facet) (byteEnd facet)) fs"
  by (induction fs arbitrary: fcts) simp_all

lemma forFacets_eq:
  "forFacets fs fcts =
     fcts @ concat (map (\<lambda>facet.
                      map (\<lambda>f. FacetLink (feature_uri f) (byteStart facet) (byteEnd facet))
                        (filter (\<lambda>d. feature_type d = ''app.bsky.richtext.facet#link'') (facet_features facet))) fs)"
  by (induction fs arbitrary: fcts) (simp_all add: pushFeatures_eq Let_def)

text \<open>
  C4. \<^verbatim>\<open>extractEmbeds\<close> on an embed object whose \<^verbatim>\<open>$type\<close> is \<^verbatim>\<open>app.bsky.embed.images\<close>
  returns, in input order, one URL per image:
  \<^verbatim>\<open>https://cdn.bsky.app/img/feed_thumbnail/plain/<authorDid>/<$link>@<subtype>\<close>, the
  subtype being the last segment of the MIME type after a \<^verbatim>\<open>/\<close>. For an embed object with
  any other \<^verbatim>\<open>$type\<close> (or none), and for an absent embed, it returns the empty list.
\<close>

theorem extractEmbeds_urls:
  "extractEmbeds (Some (Embed (Some ''app.bsky.embed.images'') imgs)) authorDid =
     map (\<lambda>im. ''https://cdn.bsky.app/img/feed_thumbnail/plain/'' @ authorDid @ ''/''
                 @ ref_link im @ ''@'' @ last_segment CHR ''/'' (mimeType im)) imgs
   \<and> (t \<noteq> Some ''app.bsky.embed.images'' \<longrightarrow> extractEmbeds (Some (Embed t imgs)) authorDid = [])
   \<and> extractEmbeds None authorDid = []"
  by (auto simp: extractEmbeds_def pushImages_eq split: option.splits)

theorem extractEmbeds_urls_witness:
  "extractEmbeds (Some (Embed (Some ''app.bsky.embed.images'') [Image ''image/jpeg'' ''abc123'']))
      ''did:plc:xyz''
     = [''https://cdn.bsky.app/img/feed_thumbnail/plain/did:plc:xyz/abc123@jpeg'']
   \<and> Some ''app.bsky.embed.external'' \<noteq> Some ''app.bsky.embed.images''
   \<and> extractEmbeds (Some (Embed (Some ''app.bsky.embed.external'') [Image ''image/jpeg'' ''abc123'']))
        ''did:plc:xyz'' = []
   \<and> extractEmbeds None ''did:plc:xyz'' = []"
  using extractEmbeds_urls [of "[Image ''image/jpeg'' ''abc123'']" "''did:plc:xyz''"
                              "Some ''app.bsky.embed.external''"]
  by (simp add: last_segment_def)

text \<open>
  C5. \<^verbatim>\<open>extractFacets\<close> emits one \<^verbatim>\<open>{uri, start, end}\<close> per feature tagged
  \<^verbatim>\<open>app.bsky.richtext.facet#link\<close>, with the byte range of the facet that holds the
  feature; features with other tags are ignored; several link features of one facet give
  several entries with the same range; the order of the input is kept; an absent facet
  list gives the empty list.
\<close>

theorem extractFacets_links:
  "extractFacets (Some facets) =
     concat (map (\<lambda>facet.
               map (\<lambda>feature. FacetLink (feature_uri feature) (byteStart facet) (byteEnd facet))
                 (filter (\<lambda>d. feature_type d = ''app.bsky.richtext.facet#link'') (facet_features facet))) facets)
   \<and> length (extractFacets (Some facets)) =
       sum_list (map (\<lambda>facet. length (filter (\<lambda>d. feature_type d = ''app.bsky.richtext.facet#link'') (facet_features facet))) facets)
   \<and> extractFacets None = []"
  by (simp add: extractFacets_def forFacets_eq length_concat comp_def)

theorem extractFacets_links_witness:
  "extractFacets (Some [Facet 5 10 [Feature ''app.bsky.richtext.facet#link'' ''https://x.test'',
                                    Feature ''app.bsky.richtext.facet#mention'' '''']])
     = [FacetLink ''https://x.test'' 5 10]
   \<and> extractFacets (Some [Facet 0 4 [Feature ''app.bsky.richtext.facet#link'' ''https://a.test'',
                                    Feature ''app.bsky.richtext.facet#link'' ''https://b.test''],
                          Facet 7 9 [Feature ''app.bsky.richtext.facet#tag'' ''''],
                          Facet 12 20 [Feature ''app.bsky.richtext.facet#link'' ''https://c.test'']])
     = [FacetLink ''https://a.test'' 0 4, FacetLink ''https://b.test'' 0 4,
        FacetLink ''https://c.test'' 12 20]"
  using extractFacets_links [of "[Facet 5 10 [Feature ''app.bsky.richtext.facet#link'' ''https://x.test'',
                                    Feature ''app.bsky.richtext.facet#mention'' '''']]"]
        extractFacets_links [of "[Facet 0 4 [Feature ''app.bsky.richtext.facet#link'' ''https://a.test'',
                                    Feature ''app.bsky.richtext.facet#link'' ''https://b.test''],
                          Facet 7 9 [Feature ''app.bsky.richtext.facet#tag'' ''''],
                          Facet 12 20 [Feature ''app.bsky.richtext.facet#link'' ''https://c.test'']]"]
  by simp

text \<open>
  C9, as stated (every FacetLink produced satisfies \<open>0 \<le> start \<le> end\<close>), fails: the range
  is copied from the facet unchecked. A facet from byte 10 to byte 5 gives a FacetLink
  with \<open>start = 10\<close> and \<open>end = 5\<close>.
\<close>

theorem facetLink_range_counterexample:
  "extractFacets (Some [Facet 10 5 [Feature ''app.bsky.richtext.facet#link'' ''https://x.test'']])
     = [FacetLink ''https://x.test'' 10 5]
   \<and> \<not> (0 \<le> link_start (FacetLink ''https://x.test'' 10 5)
        \<and> link_start (FacetLink ''https://x.test'' 10 5)
            \<le> link_end (FacetLink ''https://x.test'' 10 5))"
  by (simp add: extractFacets_def)

text \<open>
  C9, amended. Every FacetLink produced has the \<^verbatim>\<open>byteStart\<close> and \<^verbatim>\<open>byteEnd\<close> of a facet of
  the input as its \<open>start\<close> and \<open>end\<close>; so \<open>0 \<le> start \<le> end\<close> holds for every FacetLink
  produced whenever \<open>0 \<le> byteStart \<le> byteEnd\<close> holds for every facet of the input.
\<close>

theorem facetLink_range:
  "(\<forall>l \<in> set (extractFacets (Some facets)).
      \<exists>facet \<in> set facets. link_start l = byteStart facet \<and> link_end l = byteEnd facet)
   \<and> ((\<forall>facet \<in> set facets. 0 \<le> byteStart facet \<and> byteStart facet \<le> byteEnd facet)
        \<longrightarrow> (\<forall>l \<in> set (extractFacets (Some facets)).
               0 \<le> link_start l \<and> link_start l \<le> link_end l))"
  by (auto simp: extractFacets_def forFacets_eq)

theorem facetLink_range_witness:
  "0 \<le> byteStart (Facet 5 10 [Feature ''app.bsky.richtext.facet#link'' ''https://x.test''])
   \<and> byteStart (Facet 5 10 [Feature ''app.bsky.richtext.facet#link'' ''https://x.test''])
       \<le> byteEnd (Facet 5 10 [Feature ''app.bsky.richtext.facet#link'' ''https://x.test''])
   \<and> extractFacets (Some [Facet 5 10 [Feature ''app.bsky.richtext.facet#link'' ''https://x.test'']])
       = [FacetLink ''https://x.test'' 5 10]
   \<and> 0 \<le> link_start (FacetLink ''https://x.test'' 5 10)
   \<and> link_start (FacetLink ''https://x.test'' 5 10) \<le> link_end (FacetLink ''https://x.test'' 5 10)"
  using facetLink_range [of "[Facet 5 10 [Feature ''app.bsky.richtext.facet#link'' ''https://x.test'']]"]
  by (simp add: extractFacets_def)

section \<open>Properties of the thread reconstructor\<close>

text \<open>
  The test of line 142 only skips calls that would push nothing.
\<close>

lemma has_replies_False: "\<not> has_replies rs \<Longrightarrow> acceptedIn authorDid cid rs pcid = []"
  by (cases rs rule: has_replies.cases) simp_all

text \<open>
  The walk appends to \<^verbatim>\<open>replies\<close> the normalized posts of the accepted nodes, in order.
\<close>

lemma traverseReplies_accepted:
  "traverseReplies authorDid cid f pcid replies
     = replies @ map (normalized authorDid) (acceptedIn authorDid cid f pcid)"
  and forReplies_accepted:
  "forReplies authorDid cid xs pcid replies
     = replies @ map (normalized authorDid) (acceptedOf authorDid cid xs pcid)"
proof (induction authorDid cid f pcid replies and authorDid cid xs pcid replies
         rule: traverseReplies_forReplies.induct)
  case (6 authorDid cid p rs rest pcid replies)
  show ?case
  proof (cases "accepts authorDid cid pcid p")
    case True
    then have a: "author_did (post_author p) = authorDid" "reply_root_cid p = cid"
      "reply_parent_cid p = pcid"
      by (simp_all add: accepts_def)
    show ?thesis
    proof (cases "has_replies rs")
      case hr: True
      show ?thesis
        using a hr True "6.IH"(1) [OF a refl hr] "6.IH"(2)
        by (simp add: normalized_def)
    next
      case hr: False
      show ?thesis
        using a hr True "6.IH"(2) has_replies_False [OF hr]
        by (simp add: normalized_def)
    qed
  next
    case False
    let ?st = "if author_did (post_author p) = authorDid then
          if reply_root_cid p = cid then
            if reply_parent_cid p = pcid then
              (let pushed = replies @
                     [NormalizedPost (post_uri p) (record_text p)
                        (extractEmbeds (record_embed p) authorDid)
                        (extractFacets (record_facets p))]
               in if has_replies rs
                  then traverseReplies authorDid cid rs (post_cid p) pushed
                  else pushed)
            else replies
          else replies
        else replies"
    have st: "?st = replies"
      using False by (auto simp: accepts_def)
    have "forReplies authorDid cid (RawPost p rs # rest) pcid replies
            = forReplies authorDid cid rest pcid ?st"
      by simp
    also have "\<dots> = ?st @ map (normalized authorDid) (acceptedOf authorDid cid rest pcid)"
      by (rule "6.IH"(2))
    finally show ?thesis
      using False by (simp only: st acceptedOf.simps if_False append_Nil)
  qed
qed simp_all

lemma extractReplies_accepted:
  "extractReplies t authorDid
     = map (normalized authorDid)
         (acceptedIn authorDid (post_cid (node_post t)) (node_replies t) (post_cid (node_post t)))"
  by (simp add: extractReplies_def traverseReplies_accepted)

lemma threadReplies_chain:
  "threadReplies t = map (normalized (author_did (post_author (node_post t)))) (chain t)"
  by (simp add: threadReplies_def chain_def extractReplies_accepted normalized_def)

text \<open>
  Every accepted node passed the tests on the author and on the root.
\<close>

lemma accepted_author:
  "n \<in> set (acceptedIn authorDid cid f pcid) \<Longrightarrow>
     author_did (post_author (node_post n)) = authorDid \<and> reply_root_cid (node_post n) = cid"
  and acceptedOf_author:
  "n \<in> set (acceptedOf authorDid cid xs pcid) \<Longrightarrow>
     author_did (post_author (node_post n)) = authorDid \<and> reply_root_cid (node_post n) = cid"
  by (induction authorDid cid f pcid and authorDid cid xs pcid rule: acceptedIn_acceptedOf.induct)
     (auto simp: accepts_def split: if_splits)

text \<open>
  An accepted position starts at an accepted element of the array, and goes on (if at
  all) with a position accepted among the replies of that element.
\<close>

lemma pathsOf_cases:
  "path \<in> set (pathsOf authorDid cid xs pcid i) \<Longrightarrow>
     \<exists>j s. path = (i + j) # s \<and> j < length xs
       \<and> accepts authorDid cid pcid (node_post (xs ! j))
       \<and> (s = [] \<or> s \<in> set (pathsIn authorDid cid (node_replies (xs ! j))
                                (post_cid (node_post (xs ! j)))))"
proof (induction xs arbitrary: i)
  case Nil
  then show ?case by simp
next
  case (Cons x rest)
  obtain p rs where x: "x = RawPost p rs" by (cases x)
  from Cons.prems consider
      (head) "accepts authorDid cid pcid p"
        "path \<in> set ([i] # map ((#) i) (pathsIn authorDid cid rs (post_cid p)))"
    | (tail) "path \<in> set (pathsOf authorDid cid rest pcid (Suc i))"
    by (auto simp: x split: if_splits)
  then show ?case
  proof cases
    case head
    then have "path = (i + 0) # [] \<or>
        (\<exists>s. path = (i + 0) # s \<and> s \<in> set (pathsIn authorDid cid rs (post_cid p)))"
      by auto
    then show ?thesis
      using head(1) x by (intro exI [of _ 0]) auto
  next
    case tail
    from Cons.IH [OF tail] obtain j s where
      "path = (Suc i + j) # s" "j < length rest"
      "accepts authorDid cid pcid (node_post (rest ! j))"
      "s = [] \<or> s \<in> set (pathsIn authorDid cid (node_replies (rest ! j))
                              (post_cid (node_post (rest ! j))))"
      by blast
    then show ?thesis
      by (intro exI [of _ "Suc j"] exI [of _ s]) simp
  qed
qed

lemma pathsIn_cases:
  assumes "path \<in> set (pathsIn authorDid cid (node_replies t) pcid)"
  shows "\<exists>xs j s. node_replies t = Array xs \<and> path = j # s \<and> j < length xs
       \<and> accepts authorDid cid pcid (node_post (xs ! j))
       \<and> (s = [] \<or> s \<in> set (pathsIn authorDid cid (node_replies (xs ! j))
                                (post_cid (node_post (xs ! j)))))"
proof (cases "node_replies t")
  case (Array xs)
  with assms have "path \<in> set (pathsOf authorDid cid xs pcid 0)" by simp
  from pathsOf_cases [OF this] Array show ?thesis by auto
qed (use assms in simp_all)

lemma subnode_Cons:
  "node_replies t = Array xs \<Longrightarrow> j < length xs \<Longrightarrow> subnode t (j # q) = subnode (xs ! j) q"
  by (cases t) simp

text \<open>
  Every node on the way to an accepted position, the root apart, has the author
  \<open>authorDid\<close>.
\<close>

lemma accepted_path_authors:
  "path \<in> set (pathsIn authorDid cid (node_replies t) pcid) \<Longrightarrow> q \<noteq> [] \<Longrightarrow> path = q @ s \<Longrightarrow>
     \<exists>r. subnode t q = Some r \<and> author_did (post_author (node_post r)) = authorDid"
proof (induction q arbitrary: t pcid path)
  case Nil
  then show ?case by simp
next
  case (Cons k q)
  from pathsIn_cases [OF Cons.prems(1)] obtain xs j s0 where
    xs: "node_replies t = Array xs" and path: "path = j # s0" and j: "j < length xs"
    and acc: "accepts authorDid cid pcid (node_post (xs ! j))"
    and s0: "s0 = [] \<or> s0 \<in> set (pathsIn authorDid cid (node_replies (xs ! j))
                                (post_cid (node_post (xs ! j))))"
    by blast
  from path Cons.prems(3) have k: "k = j" and q: "s0 = q @ s" by simp_all
  have sub: "subnode t (k # q) = subnode (xs ! j) q"
    using xs j k by (simp add: subnode_Cons)
  show ?case
  proof (cases "q = []")
    case True
    then show ?thesis
      using sub acc by (simp add: accepts_def)
  next
    case False
    with q s0 have "s0 \<in> set (pathsIn authorDid cid (node_replies (xs ! j))
                                (post_cid (node_post (xs ! j))))"
      by auto
    from Cons.IH [OF this False q] sub show ?thesis by simp
  qed
qed

lemma pathsOf_intro:
  "j < length xs \<Longrightarrow> accepts authorDid cid pcid (node_post (xs ! j)) \<Longrightarrow>
   s = [] \<or> s \<in> set (pathsIn authorDid cid (node_replies (xs ! j)) (post_cid (node_post (xs ! j)))) \<Longrightarrow>
   (i + j) # s \<in> set (pathsOf authorDid cid xs pcid i)"
proof (induction xs arbitrary: i j)
  case Nil
  then show ?case by simp
next
  case (Cons x rest)
  obtain p rs where x: "x = RawPost p rs" by (cases x)
  show ?case
  proof (cases j)
    case 0
    then show ?thesis
      using Cons.prems x by auto
  next
    case (Suc m)
    with Cons.prems have "(Suc i + m) # s \<in> set (pathsOf authorDid cid rest pcid (Suc i))"
      by (intro Cons.IH) simp_all
    then show ?thesis
      using Suc x by simp
  qed
qed

text \<open>
  The accepted positions are closed under prefixes: the nodes on the way to an accepted
  position, the root apart, are accepted themselves.
\<close>

lemma accepted_prefix:
  "path \<in> set (pathsIn authorDid cid (node_replies t) pcid) \<Longrightarrow> q \<noteq> [] \<Longrightarrow> path = q @ s \<Longrightarrow>
     q \<in> set (pathsIn authorDid cid (node_replies t) pcid)"
proof (induction q arbitrary: t pcid path)
  case Nil
  then show ?case by simp
next
  case (Cons k q)
  from pathsIn_cases [OF Cons.prems(1)] obtain xs j s0 where
    xs: "node_replies t = Array xs" and path: "path = j # s0" and j: "j < length xs"
    and acc: "accepts authorDid cid pcid (node_post (xs ! j))"
    and s0: "s0 = [] \<or> s0 \<in> set (pathsIn authorDid cid (node_replies (xs ! j))
                                (post_cid (node_post (xs ! j))))"
    by blast
  from path Cons.prems(3) have k: "k = j" and q: "s0 = q @ s" by simp_all
  have "q = [] \<or> q \<in> set (pathsIn authorDid cid (node_replies (xs ! j))
                                (post_cid (node_post (xs ! j))))"
  proof (cases "q = []")
    case True
    then show ?thesis by simp
  next
    case False
    with q s0 have "s0 \<in> set (pathsIn authorDid cid (node_replies (xs ! j))
                                (post_cid (node_post (xs ! j))))"
      by auto
    from Cons.IH [OF this False q] show ?thesis by simp
  qed
  with j acc have "(0 + j) # q \<in> set (pathsOf authorDid cid xs pcid 0)"
    by (rule pathsOf_intro)
  then show ?case
    using xs k by simp
qed

text \<open>
  The nodes at the accepted positions are the accepted nodes, in the same order.
\<close>

lemma paths_nodes:
  "map (subnode (RawPost p0 f)) (pathsIn authorDid cid f pcid)
     = map Some (acceptedIn authorDid cid f pcid)"
  and pathsOf_nodes:
  "length pre = i \<Longrightarrow>
   map (subnode (RawPost p0 (Array (pre @ xs)))) (pathsOf authorDid cid xs pcid i)
     = map Some (acceptedOf authorDid cid xs pcid)"
proof (induction authorDid cid f pcid and authorDid cid xs pcid i arbitrary: p0 and p0 pre
         rule: pathsIn_pathsOf.induct)
  case (4 authorDid cid replyArray pcid)
  show ?case
    using "4.IH" [of "[]" p0] by simp
next
  case (6 authorDid cid p rs rest pcid i)
  have tail: "map (subnode (RawPost p0 (Array (pre @ RawPost p rs # rest))))
                (pathsOf authorDid cid rest pcid (Suc i))
              = map Some (acceptedOf authorDid cid rest pcid)"
    using "6.IH"(2) [of "pre @ [RawPost p rs]" p0] "6.prems" by simp
  show ?case
  proof (cases "accepts authorDid cid pcid p")
    case True
    have here: "subnode (RawPost p0 (Array (pre @ RawPost p rs # rest))) (i # s)
                  = subnode (RawPost p rs) s" for s
      using "6.prems" by (simp add: nth_append)
    have "map (subnode (RawPost p0 (Array (pre @ RawPost p rs # rest))))
            ([i] # map ((#) i) (pathsIn authorDid cid rs (post_cid p)))
          = Some (RawPost p rs) # map (subnode (RawPost p rs)) (pathsIn authorDid cid rs (post_cid p))"
      by (simp only: list.map here comp_def map_map subnode.simps(1))
    also have "\<dots> = map Some (RawPost p rs # acceptedIn authorDid cid rs (post_cid p))"
      using "6.IH"(1) [OF True, of p] by simp
    finally show ?thesis
      using True tail by simp
  next
    case False
    then show ?thesis using tail by simp
  qed
qed simp_all

lemma chain_nth_subnode:
  assumes "0 < i" and "i < length (chain t)"
  shows "\<exists>path. subnode t path = Some (chain t ! i)"
proof -
  let ?a = "author_did (post_author (node_post t))" and ?c = "post_cid (node_post t)"
  let ?ps = "pathsIn ?a ?c (node_replies t) ?c"
  let ?ns = "acceptedIn ?a ?c (node_replies t) ?c"
  have "map (subnode (RawPost (node_post t) (node_replies t))) ?ps = map Some ?ns"
    by (rule paths_nodes)
  then have m: "map (subnode t) ?ps = map Some ?ns"
    by simp
  then have len: "length ?ps = length ?ns"
    by (metis length_map)
  obtain k where k: "i = Suc k" using assms(1) by (cases i) auto
  with assms(2) have kl: "k < length ?ns" by (simp add: chain_def)
  have "map (subnode t) ?ps ! k = map Some ?ns ! k"
    using m by simp
  then have "subnode t (?ps ! k) = Some (?ns ! k)"
    using kl len by simp
  then show ?thesis
    using k by (auto simp: chain_def)
qed

lemma chained_Nil: "chained pcid []"
  by (simp add: chained_def)

lemma chained_append:
  assumes "chained pcid as" and "chained pcid bs"
  shows "chained pcid (as @ bs)"
  unfolding chained_def
proof (intro allI impI)
  fix k
  assume k: "k < length (as @ bs)"
  show "reply_parent_cid (node_post ((as @ bs) ! k)) = pcid
        \<or> (\<exists>j < k. reply_parent_cid (node_post ((as @ bs) ! k))
                      = post_cid (node_post ((as @ bs) ! j)))"
  proof (cases "k < length as")
    case True
    with assms(1) consider
        "reply_parent_cid (node_post (as ! k)) = pcid"
      | j where "j < k"
          "reply_parent_cid (node_post (as ! k)) = post_cid (node_post (as ! j))"
      unfolding chained_def by blast
    then show ?thesis
    proof cases
      case 1
      then show ?thesis using True by (simp add: nth_append)
    next
      case 2
      then have "j < k"
        "reply_parent_cid (node_post ((as @ bs) ! k)) = post_cid (node_post ((as @ bs) ! j))"
        using True by (simp_all add: nth_append)
      then show ?thesis by blast
    qed
  next
    case False
    then have kb: "k - length as < length bs"
      using k by simp
    with assms(2) consider
        "reply_parent_cid (node_post (bs ! (k - length as))) = pcid"
      | j where "j < k - length as"
          "reply_parent_cid (node_post (bs ! (k - length as))) = post_cid (node_post (bs ! j))"
      unfolding chained_def by blast
    then show ?thesis
    proof cases
      case 1
      then show ?thesis using False by (simp add: nth_append)
    next
      case 2
      then have "length as + j < k"
        "reply_parent_cid (node_post ((as @ bs) ! k))
           = post_cid (node_post ((as @ bs) ! (length as + j)))"
        using False by (simp_all add: nth_append)
      then show ?thesis by blast
    qed
  qed
qed

lemma chained_Cons:
  assumes "reply_parent_cid (node_post x) = pcid" and "chained (post_cid (node_post x)) ns"
  shows "chained pcid (x # ns)"
  unfolding chained_def
proof (intro allI impI)
  fix k
  assume k: "k < length (x # ns)"
  show "reply_parent_cid (node_post ((x # ns) ! k)) = pcid
        \<or> (\<exists>j < k. reply_parent_cid (node_post ((x # ns) ! k))
                      = post_cid (node_post ((x # ns) ! j)))"
  proof (cases k)
    case 0
    then show ?thesis using assms(1) by simp
  next
    case (Suc m)
    with k have m: "m < length ns" by simp
    with assms(2) consider
        "reply_parent_cid (node_post (ns ! m)) = post_cid (node_post x)"
      | j where "j < m" "reply_parent_cid (node_post (ns ! m)) = post_cid (node_post (ns ! j))"
      unfolding chained_def by blast
    then show ?thesis
    proof cases
      case 1
      then have "0 < k" "reply_parent_cid (node_post ((x # ns) ! k))
                          = post_cid (node_post ((x # ns) ! 0))"
        using Suc by simp_all
      then show ?thesis by blast
    next
      case 2
      then have "Suc j < k" "reply_parent_cid (node_post ((x # ns) ! k))
                          = post_cid (node_post ((x # ns) ! Suc j))"
        using Suc by simp_all
      then show ?thesis by blast
    qed
  qed
qed

lemma acceptedIn_chained: "chained pcid (acceptedIn authorDid cid f pcid)"
  and acceptedOf_chained: "chained pcid (acceptedOf authorDid cid xs pcid)"
proof (induction authorDid cid f pcid and authorDid cid xs pcid rule: acceptedIn_acceptedOf.induct)
  case (6 authorDid cid p rs rest pcid)
  show ?case
  proof (cases "accepts authorDid cid pcid p")
    case True
    then have "reply_parent_cid (node_post (RawPost p rs)) = pcid"
      by (simp add: accepts_def)
    moreover have "chained (post_cid (node_post (RawPost p rs)))
                     (acceptedIn authorDid cid rs (post_cid p))"
      using "6.IH"(1) [OF True] by simp
    ultimately have "chained pcid (RawPost p rs # acceptedIn authorDid cid rs (post_cid p))"
      by (rule chained_Cons)
    then have "chained pcid ((RawPost p rs # acceptedIn authorDid cid rs (post_cid p))
                 @ acceptedOf authorDid cid rest pcid)"
      using "6.IH"(2) by (rule chained_append)
    then show ?thesis
      using True by simp
  next
    case False
    then show ?thesis using "6.IH"(2) by simp
  qed
qed (simp_all add: chained_Nil)

lemma linked_Nil: "linked pcid []"
  by (simp add: linked_def)

lemma linked_Cons:
  assumes "reply_parent_cid (node_post x) = pcid" and "linked (post_cid (node_post x)) ns"
  shows "linked pcid (x # ns)"
  unfolding linked_def
proof (intro allI impI)
  fix k
  assume k: "k < length (x # ns)"
  show "reply_parent_cid (node_post ((x # ns) ! k))
          = (if k = 0 then pcid else post_cid (node_post ((x # ns) ! (k - 1))))"
  proof (cases k)
    case 0
    then show ?thesis using assms(1) by simp
  next
    case (Suc m)
    with k have "m < length ns" by simp
    with assms(2) have "reply_parent_cid (node_post (ns ! m))
          = (if m = 0 then post_cid (node_post x) else post_cid (node_post (ns ! (m - 1))))"
      by (simp add: linked_def)
    then show ?thesis
      using Suc by (cases m) simp_all
  qed
qed

lemma acceptedIn_hd:
  "acceptedIn authorDid cid f pcid \<noteq> [] \<Longrightarrow>
     reply_parent_cid (node_post (hd (acceptedIn authorDid cid f pcid))) = pcid"
  and acceptedOf_hd:
  "acceptedOf authorDid cid xs pcid \<noteq> [] \<Longrightarrow>
     reply_parent_cid (node_post (hd (acceptedOf authorDid cid xs pcid))) = pcid"
  by (induction authorDid cid f pcid and authorDid cid xs pcid rule: acceptedIn_acceptedOf.induct)
     (auto simp: accepts_def)

lemma acceptedIn_linked:
  "distinct (map (\<lambda>n. reply_parent_cid (node_post n)) (acceptedIn authorDid cid f pcid)) \<Longrightarrow>
     linked pcid (acceptedIn authorDid cid f pcid)"
  and acceptedOf_linked:
  "distinct (map (\<lambda>n. reply_parent_cid (node_post n)) (acceptedOf authorDid cid xs pcid)) \<Longrightarrow>
     linked pcid (acceptedOf authorDid cid xs pcid)"
proof (induction authorDid cid f pcid and authorDid cid xs pcid rule: acceptedIn_acceptedOf.induct)
  case (6 authorDid cid p rs rest pcid)
  let ?S = "acceptedIn authorDid cid rs (post_cid p)"
  let ?R = "acceptedOf authorDid cid rest pcid"
  show ?case
  proof (cases "accepts authorDid cid pcid p")
    case True
    then have L: "acceptedOf authorDid cid (RawPost p rs # rest) pcid = RawPost p rs # ?S @ ?R"
      by simp
    have par: "reply_parent_cid p = pcid"
      using True by (simp add: accepts_def)
    have d: "distinct (map (\<lambda>n. reply_parent_cid (node_post n)) (RawPost p rs # ?S @ ?R))"
      using "6.prems" unfolding L .
    have R: "?R = []"
    proof (rule ccontr)
      assume ne: "?R \<noteq> []"
      then have "reply_parent_cid (node_post (hd ?R)) = pcid"
        by (rule acceptedOf_hd)
      moreover have "hd ?R \<in> set ?R"
        using ne by simp
      ultimately have "reply_parent_cid p \<in> (\<lambda>n. reply_parent_cid (node_post n)) ` set ?R"
        using par by force
      then show False
        using d by simp
    qed
    have "distinct (map (\<lambda>n. reply_parent_cid (node_post n)) ?S)"
      using d by simp
    then have "linked (post_cid p) ?S"
      using "6.IH"(1) [OF True] by simp
    then have "linked pcid (RawPost p rs # ?S)"
      using par by (intro linked_Cons) simp_all
    then show ?thesis
      using L R by simp
  next
    case False
    then show ?thesis using "6.IH"(2) "6.prems" by simp
  qed
qed (simp_all add: linked_Nil)

section \<open>The example thread\<close>

lemmas ex_defs = ex_post_def ex_Y_def ex_X_def ex_Q_def ex_P1_def ex_P2_def ex_R_def ex_line_def

lemma ex_R_chain: "chain ex_R = [ex_R, ex_P1, ex_Q, ex_P2]"
  by (simp add: chain_def ex_defs accepts_def)

lemma ex_line_chain: "chain ex_line = [ex_line, ex_P1, ex_Q]"
  by (simp add: chain_def ex_defs accepts_def)

lemma ex_R_paths: "acceptedPaths ex_R ''did:plc:a'' = [[1], [1, 0], [2]]"
  by (simp add: acceptedPaths_def ex_defs accepts_def)

section \<open>The reconstructed thread\<close>

text \<open>
  C1. A reply whose author \<^verbatim>\<open>did\<close> differs from \<open>authorDid\<close> is excluded from the
  reconstructed thread, and so is every node of the subtree of that reply, whatever its
  own author: the walk enters the replies of a node only when the node was accepted.
  Stated with positions: \<^verbatim>\<open>extractReplies\<close> returns the normalized posts of the accepted
  nodes, the accepted nodes are the nodes at the accepted positions, and no position
  \<open>q @ s\<close> at (\<open>s = []\<close>) or below a reply \<open>r\<close> of another author, found at the position
  \<open>q\<close>, is accepted. More generally, a position is accepted only if every position on
  the way to it from the root is: nothing below a rejected node is accepted.
\<close>

theorem foreign_subtree_excluded:
  "extractReplies t authorDid
     = map (normalized authorDid)
         (acceptedIn authorDid (post_cid (node_post t)) (node_replies t) (post_cid (node_post t)))
   \<and> map (subnode t) (acceptedPaths t authorDid)
       = map Some
           (acceptedIn authorDid (post_cid (node_post t)) (node_replies t) (post_cid (node_post t)))
   \<and> (\<forall>q r s. q \<noteq> [] \<and> subnode t q = Some r
               \<and> author_did (post_author (node_post r)) \<noteq> authorDid
         \<longrightarrow> q @ s \<notin> set (acceptedPaths t authorDid))
   \<and> (\<forall>q s. q \<noteq> [] \<and> q @ s \<in> set (acceptedPaths t authorDid)
         \<longrightarrow> q \<in> set (acceptedPaths t authorDid))"
proof (intro conjI allI impI)
  show "extractReplies t authorDid
     = map (normalized authorDid)
         (acceptedIn authorDid (post_cid (node_post t)) (node_replies t) (post_cid (node_post t)))"
    by (rule extractReplies_accepted)
  have "map (subnode (RawPost (node_post t) (node_replies t))) (acceptedPaths t authorDid)
       = map Some
           (acceptedIn authorDid (post_cid (node_post t)) (node_replies t) (post_cid (node_post t)))"
    unfolding acceptedPaths_def by (rule paths_nodes)
  then show "map (subnode t) (acceptedPaths t authorDid)
       = map Some
           (acceptedIn authorDid (post_cid (node_post t)) (node_replies t) (post_cid (node_post t)))"
    by simp
next
  fix q r s
  assume h: "q \<noteq> [] \<and> subnode t q = Some r
               \<and> author_did (post_author (node_post r)) \<noteq> authorDid"
  show "q @ s \<notin> set (acceptedPaths t authorDid)"
  proof
    assume "q @ s \<in> set (acceptedPaths t authorDid)"
    then have "q @ s \<in> set (pathsIn authorDid (post_cid (node_post t)) (node_replies t)
                               (post_cid (node_post t)))"
      by (simp add: acceptedPaths_def)
    from accepted_path_authors [OF this _ refl] h show False
      by auto
  qed
next
  fix q :: "nat list" and s
  assume "q \<noteq> [] \<and> q @ s \<in> set (acceptedPaths t authorDid)"
  then have "q \<noteq> []"
    "q @ s \<in> set (pathsIn authorDid (post_cid (node_post t)) (node_replies t)
                    (post_cid (node_post t)))"
    by (simp_all add: acceptedPaths_def)
  from accepted_prefix [OF this(2) this(1) refl]
  show "q \<in> set (acceptedPaths t authorDid)"
    by (simp add: acceptedPaths_def)
qed

theorem foreign_subtree_excluded_witness:
  "[0] \<noteq> ([] :: nat list) \<and> subnode ex_R [0] = Some ex_X
   \<and> author_did (post_author (node_post ex_X)) \<noteq> ''did:plc:a''
   \<and> subnode ex_R ([0] @ [0]) = Some ex_Y
   \<and> author_did (post_author (node_post ex_Y)) = ''did:plc:a''
   \<and> reply_parent_cid (node_post ex_Y) = post_cid (node_post ex_X)
   \<and> [0] @ [] \<notin> set (acceptedPaths ex_R ''did:plc:a'')
   \<and> [0] @ [0] \<notin> set (acceptedPaths ex_R ''did:plc:a'')
   \<and> acceptedPaths ex_R ''did:plc:a'' = [[1], [1, 0], [2]]
   \<and> [1] \<noteq> ([] :: nat list) \<and> [1] @ [0] \<in> set (acceptedPaths ex_R ''did:plc:a'')
   \<and> [1] \<in> set (acceptedPaths ex_R ''did:plc:a'')
   \<and> extractReplies ex_R ''did:plc:a''
       = [normalized ''did:plc:a'' ex_P1, normalized ''did:plc:a'' ex_Q,
          normalized ''did:plc:a'' ex_P2]"
proof -
  have h: "[0] \<noteq> ([] :: nat list) \<and> subnode ex_R [0] = Some ex_X
           \<and> author_did (post_author (node_post ex_X)) \<noteq> ''did:plc:a''"
    by (simp add: ex_defs)
  have y: "subnode ex_R ([0] @ [0]) = Some ex_Y"
    "author_did (post_author (node_post ex_Y)) = ''did:plc:a''"
    "reply_parent_cid (node_post ex_Y) = post_cid (node_post ex_X)"
    by (simp_all add: ex_defs)
  have c: "acceptedIn ''did:plc:a'' (post_cid (node_post ex_R)) (node_replies ex_R)
             (post_cid (node_post ex_R)) = [ex_P1, ex_Q, ex_P2]"
    using ex_R_chain by (simp add: chain_def ex_defs)
  from foreign_subtree_excluded [of ex_R "''did:plc:a''"] h
  have "[0] @ [] \<notin> set (acceptedPaths ex_R ''did:plc:a'')"
    "[0] @ [0] \<notin> set (acceptedPaths ex_R ''did:plc:a'')"
    "extractReplies ex_R ''did:plc:a''
       = map (normalized ''did:plc:a'')
           (acceptedIn ''did:plc:a'' (post_cid (node_post ex_R)) (node_replies ex_R)
              (post_cid (node_post ex_R)))"
    by blast+
  then show ?thesis
    using h y c ex_R_paths by simp
qed

text \<open>
  C2, as stated (the \<^verbatim>\<open>reply.parent.cid\<close> of the chain element at position \<open>i > 0\<close> is the
  \<^verbatim>\<open>cid\<close> of the element at position \<open>i - 1\<close>), fails when a post has two accepted replies:
  the loop of lines 131 to 148 tests every element of an array against the same \<^verbatim>\<open>pcid\<close>.
  The example thread is reconstructed as \<^verbatim>\<open>[R, P1, Q, P2]\<close>; \<^verbatim>\<open>P2\<close>, at position 3, names
  the root \<^verbatim>\<open>c0\<close> as its parent, and the element at position 2 is \<^verbatim>\<open>Q\<close>, with the \<^verbatim>\<open>cid\<close>
  \<^verbatim>\<open>c2\<close>.
\<close>

theorem chain_linear_counterexample:
  "(0::nat) < 3 \<and> 3 < length (chain ex_R)
   \<and> threadReplies ex_R = map (normalized ''did:plc:a'') (chain ex_R)
   \<and> chain ex_R ! 3 = ex_P2 \<and> chain ex_R ! (3 - 1) = ex_Q
   \<and> reply_parent_cid (node_post (chain ex_R ! 3)) = ''c0''
   \<and> post_cid (node_post (chain ex_R ! (3 - 1))) = ''c2''
   \<and> \<not> (reply_parent_cid (node_post (chain ex_R ! 3))
          = post_cid (node_post (chain ex_R ! (3 - 1))))"
proof -
  have a: "author_did (post_author (node_post ex_R)) = ''did:plc:a''"
    by (simp add: ex_defs)
  have "threadReplies ex_R = map (normalized ''did:plc:a'') (chain ex_R)"
    using threadReplies_chain [of ex_R] a by simp
  moreover have "reply_parent_cid (node_post ex_P2) = ''c0''" "post_cid (node_post ex_Q) = ''c2''"
    by (simp_all add: ex_defs)
  ultimately show ?thesis
    by (simp add: ex_R_chain)
qed

text \<open>
  C2, amended. For every chain element at a position \<open>i > 0\<close>, the \<^verbatim>\<open>reply.root.cid\<close> of
  the raw node is the \<^verbatim>\<open>cid\<close> of the root post, and its \<^verbatim>\<open>reply.parent.cid\<close> is the \<^verbatim>\<open>cid\<close>
  of the raw node of a chain element at an earlier position \<open>j < i\<close>; it is the \<^verbatim>\<open>cid\<close> of
  the element at position \<open>i - 1\<close> when no two accepted replies name the same parent.
\<close>

theorem chain_parent_links:
  "threadReplies t = map (normalized (author_did (post_author (node_post t)))) (chain t)
   \<and> (\<forall>i. 0 < i \<and> i < length (chain t) \<longrightarrow>
         reply_root_cid (node_post (chain t ! i)) = post_cid (node_post t)
         \<and> (\<exists>j<i. reply_parent_cid (node_post (chain t ! i))
                      = post_cid (node_post (chain t ! j)))
         \<and> (distinct (map (\<lambda>n. reply_parent_cid (node_post n)) (tl (chain t))) \<longrightarrow>
              reply_parent_cid (node_post (chain t ! i))
                = post_cid (node_post (chain t ! (i - 1)))))"
proof (intro conjI allI impI)
  show "threadReplies t = map (normalized (author_did (post_author (node_post t)))) (chain t)"
    by (rule threadReplies_chain)
next
  let ?a = "author_did (post_author (node_post t))" and ?c = "post_cid (node_post t)"
  let ?ns = "acceptedIn ?a ?c (node_replies t) ?c"
  fix i
  assume "0 < i \<and> i < length (chain t)"
  then obtain k where k: "i = Suc k" "k < length ?ns"
    by (cases i) (auto simp: chain_def)
  have nth: "chain t ! i = ?ns ! k"
    using k by (simp add: chain_def)
  have "?ns ! k \<in> set ?ns"
    using k by simp
  then show "reply_root_cid (node_post (chain t ! i)) = post_cid (node_post t)"
    using nth by (simp add: accepted_author)
  have "chained ?c ?ns"
    by (rule acceptedIn_chained)
  with k consider
      "reply_parent_cid (node_post (?ns ! k)) = ?c"
    | j where "j < k" "reply_parent_cid (node_post (?ns ! k)) = post_cid (node_post (?ns ! j))"
    unfolding chained_def by blast
  then show "\<exists>j<i. reply_parent_cid (node_post (chain t ! i))
                      = post_cid (node_post (chain t ! j))"
  proof cases
    case 1
    then have "0 < i" "reply_parent_cid (node_post (chain t ! i))
                        = post_cid (node_post (chain t ! 0))"
      using nth k by (simp_all add: chain_def)
    then show ?thesis by blast
  next
    case 2
    then have "Suc j < i" "reply_parent_cid (node_post (chain t ! i))
                        = post_cid (node_post (chain t ! Suc j))"
      using nth k by (simp_all add: chain_def)
    then show ?thesis by blast
  qed
  assume "distinct (map (\<lambda>n. reply_parent_cid (node_post n)) (tl (chain t)))"
  then have "distinct (map (\<lambda>n. reply_parent_cid (node_post n)) ?ns)"
    by (simp add: chain_def)
  then have "linked ?c ?ns"
    by (rule acceptedIn_linked)
  then have "reply_parent_cid (node_post (?ns ! k))
          = (if k = 0 then ?c else post_cid (node_post (?ns ! (k - 1))))"
    using k by (simp add: linked_def)
  then show "reply_parent_cid (node_post (chain t ! i))
                = post_cid (node_post (chain t ! (i - 1)))"
    using nth k by (cases k) (simp_all add: chain_def)
qed

theorem chain_parent_links_witness:
  "(0::nat) < 3 \<and> 3 < length (chain ex_R)
   \<and> reply_root_cid (node_post (chain ex_R ! 3)) = post_cid (node_post ex_R)
   \<and> (0::nat) < 3
   \<and> reply_parent_cid (node_post (chain ex_R ! 3)) = post_cid (node_post (chain ex_R ! 0))
   \<and> (0::nat) < 2 \<and> 2 < length (chain ex_line)
   \<and> distinct (map (\<lambda>n. reply_parent_cid (node_post n)) (tl (chain ex_line)))
   \<and> reply_parent_cid (node_post (chain ex_line ! 2))
       = post_cid (node_post (chain ex_line ! (2 - 1)))"
proof -
  have "distinct (map (\<lambda>n. reply_parent_cid (node_post n)) (tl (chain ex_line)))"
    by (simp add: ex_line_chain) (simp add: ex_defs)
  moreover have "(0::nat) < 2 \<and> 2 < length (chain ex_line)" "(0::nat) < 3 \<and> 3 < length (chain ex_R)"
    by (simp_all add: ex_line_chain ex_R_chain)
  moreover have "reply_parent_cid (node_post (chain ex_R ! 3)) = post_cid (node_post (chain ex_R ! 0))"
    by (simp add: ex_R_chain) (simp add: ex_defs)
  ultimately show ?thesis
    using chain_parent_links [of ex_R] chain_parent_links [of ex_line]
    by blast
qed

text \<open>
  C3. The thread array is not empty; its first element is the normalized root post
  \<^verbatim>\<open>{uri, text, embed, facets}\<close> of \<^verbatim>\<open>thread.post\<close>; the array is the normalization of the
  chain of raw nodes, which starts with the root; and every later element comes from a
  raw node of the tree whose \<^verbatim>\<open>author.did\<close> is the \<^verbatim>\<open>did\<close> of the root's author.
\<close>

theorem thread_root_then_same_author:
  "threadReplies t \<noteq> []
   \<and> hd (threadReplies t)
       = NormalizedPost (post_uri (node_post t)) (record_text (node_post t))
           (extractEmbeds (record_embed (node_post t)) (author_did (post_author (node_post t))))
           (extractFacets (record_facets (node_post t)))
   \<and> threadReplies t = map (normalized (author_did (post_author (node_post t)))) (chain t)
   \<and> hd (chain t) = t
   \<and> (\<forall>i. 0 < i \<and> i < length (threadReplies t) \<longrightarrow>
         (\<exists>path. subnode t path = Some (chain t ! i))
         \<and> author_did (post_author (node_post (chain t ! i)))
             = author_did (post_author (node_post t)))"
proof (intro conjI allI impI)
  show "threadReplies t \<noteq> []"
    by (simp add: threadReplies_def)
  show "hd (threadReplies t)
       = NormalizedPost (post_uri (node_post t)) (record_text (node_post t))
           (extractEmbeds (record_embed (node_post t)) (author_did (post_author (node_post t))))
           (extractFacets (record_facets (node_post t)))"
    by (simp add: threadReplies_def)
  show "threadReplies t = map (normalized (author_did (post_author (node_post t)))) (chain t)"
    by (rule threadReplies_chain)
  show "hd (chain t) = t"
    by (simp add: chain_def)
next
  fix i
  assume "0 < i \<and> i < length (threadReplies t)"
  then have i: "0 < i" "i < length (chain t)"
    by (simp_all add: threadReplies_chain)
  then show "\<exists>path. subnode t path = Some (chain t ! i)"
    by (rule chain_nth_subnode)
  from i obtain k where k: "i = Suc k" by (cases i) auto
  with i have "chain t ! i \<in> set (acceptedIn (author_did (post_author (node_post t)))
                   (post_cid (node_post t)) (node_replies t) (post_cid (node_post t)))"
    by (simp add: chain_def)
  then show "author_did (post_author (node_post (chain t ! i)))
             = author_did (post_author (node_post t))"
    by (simp add: accepted_author)
qed

theorem thread_root_then_same_author_witness:
  "(0::nat) < 3 \<and> 3 < length (threadReplies ex_R)
   \<and> threadReplies ex_R
       = [normalized ''did:plc:a'' ex_R, normalized ''did:plc:a'' ex_P1,
          normalized ''did:plc:a'' ex_Q, normalized ''did:plc:a'' ex_P2]
   \<and> chain ex_R ! 3 = ex_P2
   \<and> subnode ex_R [2] = Some ex_P2
   \<and> author_did (post_author (node_post (chain ex_R ! 3))) = ''did:plc:a''"
proof -
  have a: "author_did (post_author (node_post ex_R)) = ''did:plc:a''"
    by (simp add: ex_defs)
  have s: "subnode ex_R [2] = Some ex_P2"
    by (simp add: ex_R_def)
  have t: "threadReplies ex_R
       = [normalized ''did:plc:a'' ex_R, normalized ''did:plc:a'' ex_P1,
          normalized ''did:plc:a'' ex_Q, normalized ''did:plc:a'' ex_P2]"
    using threadReplies_chain [of ex_R] a by (simp add: ex_R_chain)
  then have l: "(0::nat) < 3 \<and> 3 < length (threadReplies ex_R)"
    by simp
  with thread_root_then_same_author [of ex_R]
  have "author_did (post_author (node_post (chain ex_R ! 3)))
          = author_did (post_author (node_post ex_R))"
    by blast
  then show ?thesis
    using a s t l by (simp add: ex_R_chain)
qed

text \<open>
  C10. When the \<^verbatim>\<open>replies\<close> of the root node are missing, null or not an array,
  \<^verbatim>\<open>extractReplies\<close> returns the empty list, and the thread is the normalized root post
  alone.
\<close>

theorem extractReplies_no_array:
  "extractReplies (RawPost p Undefined) authorDid = []
   \<and> extractReplies (RawPost p Null) authorDid = []
   \<and> extractReplies (RawPost p (NotArray v)) authorDid = []
   \<and> (rs = Undefined \<or> rs = Null \<or> rs = NotArray v \<longrightarrow>
        threadReplies (RawPost p rs)
          = [NormalizedPost (post_uri p) (record_text p)
               (extractEmbeds (record_embed p) (author_did (post_author p)))
               (extractFacets (record_facets p))])"
  by (auto simp: extractReplies_def threadReplies_def)

theorem extractReplies_no_array_witness:
  "extractReplies (RawPost (ex_post ''c0'' ''did:plc:a'' [] []) (NotArray (JStr ''none'')))
      ''did:plc:a'' = []
   \<and> threadReplies (RawPost (ex_post ''c0'' ''did:plc:a'' [] []) Null)
       = [NormalizedPost ''at://did:plc:a/app.bsky.feed.post/c0'' ''post c0'' [] []]"
  using extractReplies_no_array [of "ex_post ''c0'' ''did:plc:a'' [] []" "''did:plc:a''"
          "JStr ''none''" Null]
  by (simp add: ex_post_def extractEmbeds_def extractFacets_def)

section \<open>Properties of the cache and of the pipeline\<close>

lemma fetchThread_hit: "kv w postURL = Some v \<Longrightarrow> fetchThread e postURL w = (Inr v, w)"
  by (simp add: fetchThread_def)

text \<open>
  No call of \<^verbatim>\<open>fetchThread\<close> changes or removes an entry of the store.
\<close>

lemma fetchThread_keeps_entry:
  "kv w u = Some v \<Longrightarrow> kv (snd (fetchThread e postURL w)) u = Some v"
  by (auto simp: fetchThread_def fetchHTML_def fetchJSON_def Let_def
           split: option.splits prod.splits sum.splits)

lemma serveAll_keeps_entry: "kv w u = Some v \<Longrightarrow> kv (serveAll rs w) u = Some v"
proof (induction rs arbitrary: w)
  case Nil
  then show ?case by simp
next
  case (Cons r rs)
  obtain e postURL where r: "r = (e, postURL)" by (cases r)
  from Cons.prems have "kv (snd (fetchThread e postURL w)) u = Some v"
    by (rule fetchThread_keeps_entry)
  then show ?case
    using Cons.IH r by simp
qed

lemma fetchThread_success_stored:
  "fetchThread e postURL w = (Inr out, w') \<Longrightarrow> out_message out = ''success''
     \<Longrightarrow> kv w' postURL = Some out"
  by (auto simp: fetchThread_def fetchHTML_def fetchJSON_def Let_def
           split: option.splits prod.splits sum.splits)

lemma fetchThread_miss_fetches:
  "kv w postURL = None \<Longrightarrow> \<exists>rest. fetched (snd (fetchThread e postURL w)) = fetched w @ postURL # rest"
  by (auto simp: fetchThread_def fetchHTML_def fetchJSON_def Let_def
           split: option.splits prod.splits sum.splits)

text \<open>
  What a successful call that missed the store returns: the author of the root and the
  array built from the tree that was fetched.
\<close>

lemma fetchThread_miss_success:
  assumes "kv w postURL = None" and "fetchThread e postURL w = (Inr out, w')"
    and "out_message out = ''success''"
  shows "\<exists>t. out = Out ''success'' (Some (post_author (node_post t))) (Some (threadReplies t))"
  using assms
  by (auto simp: fetchThread_def fetchHTML_def fetchJSON_def Let_def
           split: option.splits prod.splits sum.splits)

lemma ex_url_top: "pop (js_split CHR ''/'' ex_url) = ''3kabc''"
  unfolding pop_js_split by (simp add: last_segment_def ex_url_def)

lemma ex_up_run: "fetchThread ex_up ex_url ex_world = (Inr ex_out, ex_cached)"
  by (simp add: fetchThread_def fetchHTML_def fetchJSON_def safeJSONParse_def didFromPost_def
        trim_def is_space_def interpolate_def ex_url_top ex_up_def ex_world_def ex_out_def
        ex_cached_def Let_def)
     (simp add: ex_R_def ex_post_def ex_url_def)

text \<open>
  C6. When the URL is not in the store and \<^verbatim>\<open>fetchHTML\<close> gives \<^verbatim>\<open>null\<close>, \<^verbatim>\<open>fetchThread\<close>
  returns \<^verbatim>\<open>{message: "Error: Invalid URL"}\<close> and writes nothing to the store: the store is
  the one before the call, it still has no entry for the URL, and the next call for the
  same URL fetches the page again.
\<close>

theorem fetchThread_invalid_url:
  assumes "kv w postURL = None" and "fst (fetchHTML e postURL w) = None"
  shows "fetchThread e postURL w
           = (Inr (Out ''Error: Invalid URL'' None None), w\<lparr>fetched := fetched w @ [postURL]\<rparr>)
         \<and> kv (snd (fetchThread e postURL w)) = kv w
         \<and> kv (snd (fetchThread e postURL w)) postURL = None
         \<and> (\<exists>rest. fetched (snd (fetchThread e' postURL (snd (fetchThread e postURL w))))
                     = fetched (snd (fetchThread e postURL w)) @ postURL # rest)"
proof -
  have r: "fetchThread e postURL w
             = (Inr (Out ''Error: Invalid URL'' None None), w\<lparr>fetched := fetched w @ [postURL]\<rparr>)"
    using assms by (auto simp: fetchThread_def fetchHTML_def split: option.splits)
  have "kv (w\<lparr>fetched := fetched w @ [postURL]\<rparr>) postURL = None"
    using assms(1) by simp
  then have "\<exists>rest. fetched (snd (fetchThread e' postURL (w\<lparr>fetched := fetched w @ [postURL]\<rparr>)))
                     = fetched (w\<lparr>fetched := fetched w @ [postURL]\<rparr>) @ postURL # rest"
    by (rule fetchThread_miss_fetches)
  then show ?thesis
    using r assms(1) by simp
qed

theorem fetchThread_invalid_url_witness:
  "kv ex_world ex_url = None \<and> fst (fetchHTML ex_down ex_url ex_world) = None
   \<and> fetchThread ex_down ex_url ex_world
       = (Inr (Out ''Error: Invalid URL'' None None), \<lparr>kv = Map.empty, fetched = [ex_url]\<rparr>)
   \<and> kv (snd (fetchThread ex_down ex_url ex_world)) ex_url = None"
proof -
  have h: "kv ex_world ex_url = None" "fst (fetchHTML ex_down ex_url ex_world) = None"
    by (simp_all add: ex_world_def ex_down_def fetchHTML_def)
  from fetchThread_invalid_url [OF h] h show ?thesis
    by (simp add: ex_world_def)
qed

text \<open>
  C7. After a call of \<^verbatim>\<open>fetchThread\<close> that returned a result with the message
  \<^verbatim>\<open>"success"\<close>, a second call with the same URL returns the same result and fetches
  nothing, whatever the outside world answers by then: the result is the entry of the
  store, and the entry is still there, unchanged, after any calls of \<^verbatim>\<open>fetchThread\<close> in
  between.
\<close>

theorem fetchThread_idempotent:
  assumes "fetchThread e postURL w = (Inr out, w')" and "out_message out = ''success''"
  shows "fetchThread e' postURL w' = (Inr out, w')
         \<and> fetched (snd (fetchThread e' postURL w')) = fetched w'
         \<and> kv w' postURL = Some out
         \<and> kv (serveAll rs w') postURL = Some out
         \<and> fetchThread e' postURL (serveAll rs w') = (Inr out, serveAll rs w')"
proof -
  have s: "kv w' postURL = Some out"
    using assms by (rule fetchThread_success_stored)
  then have "kv (serveAll rs w') postURL = Some out"
    by (rule serveAll_keeps_entry)
  then show ?thesis
    using s by (simp add: fetchThread_hit)
qed

theorem fetchThread_idempotent_witness:
  "fetchThread ex_up ex_url ex_world = (Inr ex_out, ex_cached)
   \<and> out_message ex_out = ''success''
   \<and> fetchThread ex_down ex_url ex_cached = (Inr ex_out, ex_cached)
   \<and> fetched ex_cached = fetched (snd (fetchThread ex_down ex_url ex_cached))"
proof -
  have m: "out_message ex_out = ''success''"
    by (simp add: ex_out_def)
  from fetchThread_idempotent [OF ex_up_run m, of ex_down "[]"]
  show ?thesis
    using ex_up_run m by simp
qed

text \<open>
  When the page has no author identifier, \<^verbatim>\<open>fetchThread\<close> goes on: it asks the feed
  service for \<^verbatim>\<open>at://null/...\<close>, and whatever comes back, the result is no
  \<^verbatim>\<open>{message}\<close> object and the status is not 400.
\<close>

lemma fetchThread_no_did:
  assumes "kv w postURL = None" and "fetchHTML e postURL w = (Some postDoc, w1)"
    and "didFromPost (Some postDoc) = None"
  shows "(\<forall>m. fst (fetchThread e postURL w) \<noteq> Inr (Out m None None))
         \<and> (\<forall>out. fst (handler e postURL w) \<noteq> Inr (400, out))
         \<and> fetched (snd (fetchThread e postURL w))
             = fetched w @ [postURL,
                 ''https://public.api.bsky.app/xrpc/app.bsky.feed.getPostThread?uri=at://null''
                 @ ''/app.bsky.feed.post/'' @ pop (js_split CHR ''/'' postURL)]"
  using assms
  by (auto simp: fetchThread_def handler_def fetchHTML_def fetchJSON_def Let_def interpolate_def
           split: option.splits prod.splits sum.splits)

text \<open>
  C8 (a page that is fetched and parsed, but in which no author identifier is found, is
  reported as an error result with HTTP 400) does not hold of the code:
  \<^verbatim>\<open>didFromPost\<close> returns \<^verbatim>\<open>null\<close>, \<^verbatim>\<open>fetchThread\<close> does not test it (it tests \<^verbatim>\<open>postDoc\<close>
  only), the feed service is asked for \<^verbatim>\<open>at://null/app.bsky.feed.post/3kabc\<close>, and reading
  \<^verbatim>\<open>thread.thread.post\<close> of its answer throws a \<^verbatim>\<open>TypeError\<close> that leaves the handler.
\<close>

theorem missing_did_not_reported:
  "didFromPost (fst (fetchHTML ex_nodid ex_url ex_world)) = None
   \<and> handler ex_nodid ex_url ex_world
       = (Inl TypeError,
          \<lparr>kv = Map.empty,
           fetched = [ex_url,
             ''https://public.api.bsky.app/xrpc/app.bsky.feed.getPostThread?uri=at://null/app.bsky.feed.post/3kabc'']\<rparr>)"
  by (simp add: handler_def fetchThread_def fetchHTML_def fetchJSON_def safeJSONParse_def
        didFromPost_def interpolate_def ex_url_top ex_nodid_def ex_world_def)

end
